theory Spec2Isabelle
  imports Main "HOL-Library.Sublist"
begin

section \<open>Python strings\<close>

text \<open>
  A Python \<^verbatim>\<open>str\<close> is a sequence of Unicode code points. A code point is modelled as a
  natural number and a string as a list of code points, so that \<^verbatim>\<open>line[-1]\<close>,
  \<^verbatim>\<open>startswith\<close> and \<^verbatim>\<open>strip\<close> count what Python counts. The mode argument is only
  ever compared with ASCII literals and is kept as a HOL string.
\<close>

type_synonym codepoint = nat
type_synonym ustr = "codepoint list"

text \<open>
  \<^verbatim>\<open>str.isspace\<close> for one character: the code points CPython lists as whitespace
  (U+0009..U+000D, U+001C..U+0020, U+0085, U+00A0, U+1680, U+2000..U+200A, U+2028, U+2029,
  U+202F, U+205F, U+3000).
\<close>

definition isspace :: "codepoint \<Rightarrow> bool" where
  "isspace c = (c \<in> set [9, 10, 11, 12, 13, 28, 29, 30, 31, 32, 133, 160, 5760,
     8192, 8193, 8194, 8195, 8196, 8197, 8198, 8199, 8200, 8201, 8202,
     8232, 8233, 8239, 8287, 12288])"

text \<open>\<^verbatim>\<open>s.strip()\<close>: leading and trailing whitespace removed.\<close>

definition strip :: "ustr \<Rightarrow> ustr" where
  "strip s = rev (dropWhile isspace (rev (dropWhile isspace s)))"

text \<open>\<^verbatim>\<open>s.lstrip(chars)\<close>: the longest prefix made of characters of \<open>chars\<close> removed.\<close>

definition lstrip_chars :: "ustr \<Rightarrow> ustr \<Rightarrow> ustr" where
  "lstrip_chars chars s = dropWhile (\<lambda>c. c \<in> set chars) s"

definition startswith :: "ustr \<Rightarrow> ustr \<Rightarrow> bool" where
  "startswith s p = (take (length p) s = p)"

text \<open>
  \<^verbatim>\<open>content.split("\n")\<close> and \<^verbatim>\<open>"\n".join(parts)\<close>; the line feed is code point 10. A split
  has at least one part, so the first branch of the case below is never taken.
\<close>

fun split_nl :: "ustr \<Rightarrow> ustr list" where
  "split_nl [] = [[]]"
| "split_nl (c # cs) =
     (if c = 10 then [] # split_nl cs
      else (case split_nl cs of [] \<Rightarrow> [[c]] | h # t \<Rightarrow> (c # h) # t))"

fun join_nl :: "ustr list \<Rightarrow> ustr" where
  "join_nl [] = []"
| "join_nl [p] = p"
| "join_nl (p # q # ps) = p @ [10] @ join_nl (q # ps)"

section \<open>Line classifier\<close>

text \<open>
  \<^verbatim>\<open>has_indent\<close>: the line starts with U+3000 (12288), with two spaces (32, 32) or with a
  tab (9). \<^verbatim>\<open>remove_indent\<close>: first every leading U+3000, then every leading space and tab.
\<close>

definition has_indent :: "ustr \<Rightarrow> bool" where
  "has_indent line =
     (if line = [] then False
      else if startswith line [12288] then True
      else if startswith line [32, 32] \<or> startswith line [9] then True
      else False)"

definition remove_indent :: "ustr \<Rightarrow> ustr" where
  "remove_indent line =
     (if line = [] then []
      else lstrip_chars [32, 9] (lstrip_chars [12288] line))"

section \<open>Paragraph segmenter\<close>

text \<open>
  The f-string \<^verbatim>\<open><p>{indent_str}{text}</p>\<close>: \<^verbatim>\<open><p>\<close> is 60, 112, 62 and \<^verbatim>\<open></p>\<close> is
  60, 47, 112, 62. \<open>indent_str\<close> is two U+3000 when \<open>add_indent\<close> holds, else empty.
\<close>

definition p_tag :: "ustr \<Rightarrow> ustr \<Rightarrow> ustr" where
  "p_tag indent_str text = [60, 112, 62] @ indent_str @ text @ [60, 47, 112, 62]"

definition indent_str :: "bool \<Rightarrow> ustr" where
  "indent_str add_indent = (if add_indent then [12288, 12288] else [])"

text \<open>Mode \<^verbatim>\<open>line\<close>: the loop over \<open>text_lines\<close>, threading \<open>paragraphs\<close>.\<close>

fun line_loop :: "ustr \<Rightarrow> ustr list \<Rightarrow> ustr list \<Rightarrow> ustr list" where
  "line_loop ind [] paragraphs = paragraphs"
| "line_loop ind (original_line # rest) paragraphs =
     (let line = strip original_line in
      if line = [] then line_loop ind rest paragraphs
      else if has_indent original_line then
        line_loop ind rest (paragraphs @ [p_tag ind (strip (remove_indent original_line))])
      else line_loop ind rest (paragraphs @ [p_tag ind line]))"

text \<open>
  Mode \<^verbatim>\<open>blank\<close>: the loop threads \<open>current_para\<close> (the fragments of the paragraph in
  progress) and \<open>paragraphs\<close>, and returns both for the flush after the loop.
\<close>

fun blank_loop :: "ustr \<Rightarrow> ustr list \<Rightarrow> ustr list \<Rightarrow> ustr list \<Rightarrow> ustr list \<times> ustr list" where
  "blank_loop ind [] current_para paragraphs = (current_para, paragraphs)"
| "blank_loop ind (line # rest) current_para paragraphs =
     (let stripped_line = strip line in
      if stripped_line = [] then
        (if current_para \<noteq> [] then
           blank_loop ind rest [] (paragraphs @ [p_tag ind (concat current_para)])
         else blank_loop ind rest current_para paragraphs)
      else if has_indent line \<and> current_para \<noteq> [] then
        blank_loop ind rest [strip (remove_indent line)]
          (paragraphs @ [p_tag ind (concat current_para)])
      else if has_indent line then
        blank_loop ind rest (current_para @ [strip (remove_indent line)]) paragraphs
      else blank_loop ind rest (current_para @ [stripped_line]) paragraphs)"

text \<open>Mode \<^verbatim>\<open>smart\<close>, the two flags computed once per call.\<close>

definition has_indented_lines :: "ustr list \<Rightarrow> bool" where
  "has_indented_lines text_lines =
     list_ex has_indent (filter (\<lambda>line. strip line \<noteq> []) text_lines)"

definition has_blank_lines :: "ustr list \<Rightarrow> bool" where
  "has_blank_lines text_lines = list_ex (\<lambda>line. strip line = []) text_lines"

text \<open>Mode \<^verbatim>\<open>smart\<close>, indentation branch.\<close>

fun indent_loop :: "ustr \<Rightarrow> ustr list \<Rightarrow> ustr list \<Rightarrow> ustr list \<Rightarrow> ustr list \<times> ustr list" where
  "indent_loop ind [] current_para paragraphs = (current_para, paragraphs)"
| "indent_loop ind (line # rest) current_para paragraphs =
     (let stripped_line = strip line in
      if stripped_line = [] then
        (if current_para \<noteq> [] then
           indent_loop ind rest [] (paragraphs @ [p_tag ind (concat current_para)])
         else indent_loop ind rest current_para paragraphs)
      else if has_indent line then
        (if current_para \<noteq> [] then
           indent_loop ind rest [strip (remove_indent line)]
             (paragraphs @ [p_tag ind (concat current_para)])
         else indent_loop ind rest (current_para @ [strip (remove_indent line)]) paragraphs)
      else indent_loop ind rest (current_para @ [stripped_line]) paragraphs)"

text \<open>
  Mode \<^verbatim>\<open>smart\<close>, punctuation branch. The paragraph-ending characters of the source's
  literal, in its order: U+3002, U+FF01, U+FF1F, \<^verbatim>\<open>.\<close>, \<^verbatim>\<open>!\<close>, \<^verbatim>\<open>?\<close>, the double quote, the
  single quote, U+300D, U+300B, \<^verbatim>\<open>)\<close>, U+FF09.
\<close>

definition para_end_chars :: ustr where
  "para_end_chars = [12290, 65281, 65311, 46, 33, 63, 34, 39, 12301, 12299, 41, 65289]"

fun punct_loop :: "ustr \<Rightarrow> ustr list \<Rightarrow> ustr list \<Rightarrow> ustr list \<Rightarrow> ustr list \<times> ustr list" where
  "punct_loop ind [] current_para paragraphs = (current_para, paragraphs)"
| "punct_loop ind (raw_line # rest) current_para paragraphs =
     (let line = strip raw_line in
      if line = [] then punct_loop ind rest current_para paragraphs
      else
        (let is_end_of_para = (line \<noteq> [] \<and> last line \<in> set para_end_chars) in
         if is_end_of_para then
           punct_loop ind rest [] (paragraphs @ [p_tag ind (concat (current_para @ [line]))])
         else punct_loop ind rest (current_para @ [line]) paragraphs))"

text \<open>The flush after a loop: \<^verbatim>\<open>if current_para: paragraphs.append(...)\<close>.\<close>

definition final_flush :: "ustr \<Rightarrow> ustr list \<times> ustr list \<Rightarrow> ustr list" where
  "final_flush ind st =
     (case st of (current_para, paragraphs) \<Rightarrow>
        if current_para \<noteq> [] then paragraphs @ [p_tag ind (concat current_para)]
        else paragraphs)"

text \<open>
  \<^verbatim>\<open>process_paragraphs(text_lines, mode, add_indent)\<close>. The blank-line branch of mode
  \<^verbatim>\<open>smart\<close> is the source's recursive call with mode \<^verbatim>\<open>blank\<close>; a mode that is none of
  the three falls through every branch and returns the empty \<open>paragraphs\<close>.
\<close>

function process_paragraphs :: "ustr list \<Rightarrow> string \<Rightarrow> bool \<Rightarrow> ustr list" where
  "process_paragraphs text_lines mode add_indent =
     (if mode = ''line'' then line_loop (indent_str add_indent) text_lines []
      else if mode = ''blank'' then
        final_flush (indent_str add_indent) (blank_loop (indent_str add_indent) text_lines [] [])
      else if mode = ''smart'' then
        (if has_indented_lines text_lines then
           final_flush (indent_str add_indent)
             (indent_loop (indent_str add_indent) text_lines [] [])
         else if has_blank_lines text_lines then
           process_paragraphs text_lines ''blank'' add_indent
         else
           final_flush (indent_str add_indent)
             (punct_loop (indent_str add_indent) text_lines [] []))
      else [])"
  by pat_completeness auto
termination
  by (relation "measure (\<lambda>(text_lines, mode, add_indent). if mode = ''smart'' then 1 else 0)")
    auto

declare process_paragraphs.simps [simp del]

section \<open>Chapter splitter\<close>

text \<open>
  The compiled heading pattern is a parameter: \<open>chapter_regex s\<close> holds when
  \<^verbatim>\<open>chapter_regex.match(s)\<close> returns a match. The loop threads \<open>current_title\<close>,
  \<open>chapter_lines\<close> and \<open>chapters\<close>.
\<close>

definition finish_chapter ::
  "string \<Rightarrow> bool \<Rightarrow> ustr \<Rightarrow> ustr list \<Rightarrow> (ustr \<times> ustr) list \<Rightarrow> (ustr \<times> ustr) list" where
  "finish_chapter paragraph_mode force_indent current_title chapter_lines chapters =
     (if chapter_lines \<noteq> [] then
        (let chapter_content = process_paragraphs chapter_lines paragraph_mode force_indent in
         if chapter_content \<noteq> [] then chapters @ [(current_title, join_nl chapter_content)]
         else chapters)
      else chapters)"

fun chapter_loop ::
  "(ustr \<Rightarrow> bool) \<Rightarrow> string \<Rightarrow> bool \<Rightarrow> ustr list \<Rightarrow> ustr \<Rightarrow> ustr list \<Rightarrow> (ustr \<times> ustr) list
     \<Rightarrow> ustr \<times> ustr list \<times> (ustr \<times> ustr) list" where
  "chapter_loop chapter_regex paragraph_mode force_indent [] current_title chapter_lines chapters =
     (current_title, chapter_lines, chapters)"
| "chapter_loop chapter_regex paragraph_mode force_indent (line # rest)
     current_title chapter_lines chapters =
     (if strip line = [] then
        chapter_loop chapter_regex paragraph_mode force_indent rest
          current_title (chapter_lines @ [[]]) chapters
      else if chapter_regex (strip line) then
        chapter_loop chapter_regex paragraph_mode force_indent rest
          (strip line) []
          (finish_chapter paragraph_mode force_indent current_title chapter_lines chapters)
      else
        chapter_loop chapter_regex paragraph_mode force_indent rest
          current_title (chapter_lines @ [line]) chapters)"

text \<open>The fixed first title, U+524D U+8A00.\<close>

definition preface_title :: ustr where
  "preface_title = [21069, 35328]"

text \<open>
  The chapter list \<^verbatim>\<open>txt_to_epub\<close> hands to the packaging code, from the lines of the
  decoded file, and from its content.
\<close>

definition chapters_of_lines ::
  "(ustr \<Rightarrow> bool) \<Rightarrow> string \<Rightarrow> bool \<Rightarrow> ustr list \<Rightarrow> (ustr \<times> ustr) list" where
  "chapters_of_lines chapter_regex paragraph_mode force_indent lines =
     (case chapter_loop chapter_regex paragraph_mode force_indent lines preface_title [] [] of
        (current_title, chapter_lines, chapters) \<Rightarrow>
          finish_chapter paragraph_mode force_indent current_title chapter_lines chapters)"

definition txt_to_epub_chapters ::
  "(ustr \<Rightarrow> bool) \<Rightarrow> string \<Rightarrow> bool \<Rightarrow> ustr \<Rightarrow> (ustr \<times> ustr) list" where
  "txt_to_epub_chapters chapter_regex paragraph_mode force_indent content =
     chapters_of_lines chapter_regex paragraph_mode force_indent (split_nl content)"

text \<open>
  The default of \<open>chapter_pattern\<close>, the regular expression \<^verbatim>\<open>^X.+Y.*$\<close> where X is
  U+7B2C and Y is U+7AE0, under \<^verbatim>\<open>re.match\<close>: the first character is U+7B2C (31532),
  then at least one character that is not a line feed, then U+7AE0 (31456), then
  characters that are not line feeds up to the end of the string or up to a line feed
  that ends it. \<open>dot_star_end\<close> is \<^verbatim>\<open>.*$\<close>
  and \<open>dot_star_zhang\<close> is \<^verbatim>\<open>.*Y.*$\<close>.
\<close>

definition dot_star_end :: "ustr \<Rightarrow> bool" where
  "dot_star_end s = (if 10 \<in> set s then last s = 10 \<and> 10 \<notin> set (butlast s) else True)"

fun dot_star_zhang :: "ustr \<Rightarrow> bool" where
  "dot_star_zhang [] = False"
| "dot_star_zhang (c # cs) = ((c = 31456 \<and> dot_star_end cs) \<or> (c \<noteq> 10 \<and> dot_star_zhang cs))"

definition default_chapter_pattern :: "ustr \<Rightarrow> bool" where
  "default_chapter_pattern s =
     (case s of
        c0 # c1 # cs \<Rightarrow> c0 = 31532 \<and> c1 \<noteq> 10 \<and> dot_star_zhang cs
      | _ \<Rightarrow> False)"

section \<open>Specification-side definitions\<close>

text \<open>
  The definitions of this section follow the specification's words, not the code; the
  theorems below compare them with the functions above.
\<close>

text \<open>A line is blank when nothing is left after trimming.\<close>

definition is_blank :: "ustr \<Rightarrow> bool" where
  "is_blank line = (strip line = [])"

text \<open>
  The text a line contributes to its paragraph: indentation stripped when the line is
  flagged indented, the trimmed line otherwise.
\<close>

definition line_text :: "ustr \<Rightarrow> ustr" where
  "line_text line = (if has_indent line then strip (remove_indent line) else strip line)"

text \<open>A group of lines collapsed into one paragraph string, fragments joined with no separator.\<close>

definition spec_paragraph :: "ustr \<Rightarrow> ustr list \<Rightarrow> ustr" where
  "spec_paragraph ind grp = p_tag ind (concat (map line_text grp))"

text \<open>The textual content of a paragraph string: the markup and the indent marker removed.\<close>

definition paragraph_text :: "bool \<Rightarrow> ustr \<Rightarrow> ustr" where
  "paragraph_text add_indent p =
     (let q = drop (3 + length (indent_str add_indent)) p in take (length q - 4) q)"

subsection \<open>Mode \<^verbatim>\<open>line\<close>\<close>

text \<open>Each non-blank line is a paragraph of its own.\<close>

definition spec_line_groups :: "ustr list \<Rightarrow> ustr list list" where
  "spec_line_groups ls = map (\<lambda>l. [l]) (filter (\<lambda>l. \<not> is_blank l) ls)"

subsection \<open>Mode \<^verbatim>\<open>blank\<close>\<close>

text \<open>The maximal runs of non-blank lines, delimited by blank lines.\<close>

function spec_runs :: "ustr list \<Rightarrow> ustr list list" where
  "spec_runs [] = []"
| "spec_runs (l # ls) =
     (if is_blank l then spec_runs ls
      else (l # takeWhile (\<lambda>x. \<not> is_blank x) ls)
             # spec_runs (dropWhile (\<lambda>x. \<not> is_blank x) ls))"
  by pat_completeness auto
termination
  by (relation "measure length") (auto simp: length_dropWhile_le less_Suc_eq_le)

text \<open>A run split in front of every indented line that is not its first line.\<close>

function spec_split_indented :: "ustr list \<Rightarrow> ustr list list" where
  "spec_split_indented [] = []"
| "spec_split_indented (l # ls) =
     (l # takeWhile (\<lambda>x. \<not> has_indent x) ls)
       # spec_split_indented (dropWhile (\<lambda>x. \<not> has_indent x) ls)"
  by pat_completeness auto
termination
  by (relation "measure length") (auto simp: length_dropWhile_le less_Suc_eq_le)

definition spec_blank_groups :: "ustr list \<Rightarrow> ustr list list" where
  "spec_blank_groups ls = concat (map spec_split_indented (spec_runs ls))"

subsection \<open>Mode \<^verbatim>\<open>smart\<close>, indentation as the delimiter\<close>

text \<open>
  The buffering of the specification as a state machine over (buffer, finished groups):
  a blank line only flushes, an indented line flushes and starts a new buffer, any other
  line joins the buffer; the buffer left at the end is flushed. Flushing an empty buffer
  emits nothing.
\<close>

definition spec_flush :: "ustr list \<Rightarrow> ustr list list \<Rightarrow> ustr list list" where
  "spec_flush buf out = (if buf = [] then out else out @ [buf])"

definition spec_indent_step ::
  "ustr list \<times> ustr list list \<Rightarrow> ustr \<Rightarrow> ustr list \<times> ustr list list" where
  "spec_indent_step st l =
     (case st of (buf, out) \<Rightarrow>
        if is_blank l then ([], spec_flush buf out)
        else if has_indent l then ([l], spec_flush buf out)
        else (buf @ [l], out))"

definition spec_indent_groups :: "ustr list \<Rightarrow> ustr list list" where
  "spec_indent_groups ls =
     (case foldl spec_indent_step ([], []) ls of (buf, out) \<Rightarrow> spec_flush buf out)"

subsection \<open>Mode \<^verbatim>\<open>smart\<close>, punctuation fallback\<close>

text \<open>A line ends a paragraph when the last character of its trimmed text is a terminator.\<close>

definition ends_paragraph :: "ustr \<Rightarrow> bool" where
  "ends_paragraph line = (strip line \<noteq> [] \<and> last (strip line) \<in> set para_end_chars)"

text \<open>Each group runs up to and including the next line that ends a paragraph.\<close>

function spec_punct_groups :: "ustr list \<Rightarrow> ustr list list" where
  "spec_punct_groups [] = []"
| "spec_punct_groups (l # ls) =
     (takeWhile (\<lambda>x. \<not> ends_paragraph x) (l # ls)
        @ take 1 (dropWhile (\<lambda>x. \<not> ends_paragraph x) (l # ls)))
       # spec_punct_groups (drop 1 (dropWhile (\<lambda>x. \<not> ends_paragraph x) (l # ls)))"
  by pat_completeness auto
termination
proof (relation "measure length")
  fix l :: ustr and ls :: "ustr list"
  have "length (dropWhile (\<lambda>x. \<not> ends_paragraph x) ls) \<le> length ls"
    by (rule length_dropWhile_le)
  then show "(drop 1 (dropWhile (\<lambda>x. \<not> ends_paragraph x) (l # ls)), l # ls) \<in> measure length"
    by auto
qed simp

subsection \<open>The groups of every mode\<close>

definition spec_groups :: "string \<Rightarrow> ustr list \<Rightarrow> ustr list list" where
  "spec_groups mode ls =
     (if mode = ''line'' then spec_line_groups ls
      else if mode = ''blank'' then spec_blank_groups ls
      else if mode = ''smart'' then
        (if has_indented_lines ls \<or> has_blank_lines ls then spec_blank_groups ls
         else spec_punct_groups ls)
      else [])"

subsection \<open>Chapters\<close>

text \<open>A heading is a non-blank line whose trimmed text matches the pattern.\<close>

definition is_heading :: "(ustr \<Rightarrow> bool) \<Rightarrow> ustr \<Rightarrow> bool" where
  "is_heading pat line = (\<not> is_blank line \<and> pat (strip line))"

text \<open>What the chapter buffer keeps of a line: a blank line leaves an empty entry.\<close>

definition buffer_line :: "ustr \<Rightarrow> ustr" where
  "buffer_line line = (if is_blank line then [] else line)"

text \<open>
  The sections of the document: the lines up to the first heading under the given title,
  then one section per heading, titled by the trimmed heading line and holding the lines
  up to the next heading.
\<close>

function spec_sections :: "(ustr \<Rightarrow> bool) \<Rightarrow> ustr \<Rightarrow> ustr list \<Rightarrow> (ustr \<times> ustr list) list" where
  "spec_sections pat title ls =
     (title, map buffer_line (takeWhile (\<lambda>l. \<not> is_heading pat l) ls))
       # (case dropWhile (\<lambda>l. \<not> is_heading pat l) ls of
            [] \<Rightarrow> []
          | h # rest \<Rightarrow> spec_sections pat (strip h) rest)"
  by pat_completeness auto
termination
proof (relation "measure (\<lambda>(pat, title, ls). length ls)")
  fix pat :: "ustr \<Rightarrow> bool" and title :: ustr and ls :: "ustr list" and h :: ustr and rest :: "ustr list"
  assume "dropWhile (\<lambda>l. \<not> is_heading pat l) ls = h # rest"
  then have "length (h # rest) \<le> length ls"
    using length_dropWhile_le[of "\<lambda>l. \<not> is_heading pat l" ls] by simp
  then show "((pat, strip h, rest), (pat, title, ls)) \<in> measure (\<lambda>(pat, title, ls). length ls)"
    by simp
qed simp

declare spec_sections.simps [simp del]

text \<open>The chapter a section gives, and whether it is handed on.\<close>

definition spec_chapter :: "string \<Rightarrow> bool \<Rightarrow> ustr \<times> ustr list \<Rightarrow> ustr \<times> ustr" where
  "spec_chapter mode fi sec = (fst sec, join_nl (process_paragraphs (snd sec) mode fi))"

definition spec_emitted :: "string \<Rightarrow> bool \<Rightarrow> ustr \<times> ustr list \<Rightarrow> bool" where
  "spec_emitted mode fi sec = (snd sec \<noteq> [] \<and> process_paragraphs (snd sec) mode fi \<noteq> [])"

section \<open>Auxiliary lemmas\<close>

lemma dropWhile_weaker:
  "(\<And>x. p x \<Longrightarrow> q x) \<Longrightarrow> dropWhile q (dropWhile p xs) = dropWhile q xs"
  by (induction xs) auto

lemma strip_lstrip_chars:
  assumes "\<And>c. c \<in> set chars \<Longrightarrow> isspace c"
  shows "strip (lstrip_chars chars s) = strip s"
  using assms by (simp add: strip_def lstrip_chars_def dropWhile_weaker)

lemma strip_remove_indent: "strip (remove_indent line) = strip line"
proof -
  have a: "\<And>c. c \<in> set [32, 9] \<Longrightarrow> isspace c" by (auto simp: isspace_def)
  have b: "\<And>c. c \<in> set [12288] \<Longrightarrow> isspace c" by (auto simp: isspace_def)
  show ?thesis
    by (simp only: remove_indent_def strip_lstrip_chars[OF a] strip_lstrip_chars[OF b] split: if_split) simp
qed

lemma line_text_strip: "line_text line = strip line"
  by (simp add: line_text_def strip_remove_indent)

lemma strip_Nil: "strip [] = []"
  by (simp add: strip_def)

lemma set_strip: "set (strip s) \<subseteq> set s"
proof -
  have "set (strip s) \<subseteq> set (dropWhile isspace s)"
    unfolding strip_def using set_dropWhileD by fastforce
  also have "\<dots> \<subseteq> set s" using set_dropWhileD by fastforce
  finally show ?thesis .
qed

lemma hd_strip: "strip s \<noteq> [] \<Longrightarrow> \<not> isspace (hd (strip s))"
proof -
  assume ne: "strip s \<noteq> []"
  define t where "t = dropWhile isspace s"
  have st: "strip s = rev (dropWhile isspace (rev t))" by (simp add: strip_def t_def)
  have tne: "t \<noteq> []" using ne st by auto
  have h: "\<not> isspace (hd t)" using tne unfolding t_def by (simp add: hd_dropWhile)
  have "rev (dropWhile isspace (rev t)) = take (length (rev (dropWhile isspace (rev t)))) t"
    by (metis append_eq_conv_conj rev_append rev_rev_ident takeWhile_dropWhile_id)
  moreover have "rev (dropWhile isspace (rev t)) \<noteq> []" using ne st by simp
  ultimately have "hd (rev (dropWhile isspace (rev t))) = hd t"
    by (metis hd_take length_greater_0_conv take_eq_Nil)
  then show ?thesis using h st by simp
qed

lemma map_line_text: "map line_text ls = map strip ls"
  by (simp add: line_text_strip)

lemma spec_blank_groups_Nil: "spec_blank_groups [] = []"
  by (simp add: spec_blank_groups_def)

lemma spec_blank_groups_blank:
  "is_blank x \<Longrightarrow> spec_blank_groups (x # xs) = spec_blank_groups xs"
  by (simp add: spec_blank_groups_def)

lemma spec_blank_groups_step:
  assumes "\<not> is_blank l" "\<not> is_blank x" "\<not> has_indent x"
  shows "spec_blank_groups (l # x # xs) =
           (l # hd (spec_blank_groups (x # xs))) # tl (spec_blank_groups (x # xs))"
  using assms by (simp add: spec_blank_groups_def)

lemma spec_blank_groups_break:
  assumes "\<not> is_blank l" "\<not> is_blank x" "has_indent x"
  shows "spec_blank_groups (l # x # xs) = [l] # spec_blank_groups (x # xs)"
  using assms by (simp add: spec_blank_groups_def)

lemma spec_blank_groups_Cons:
  "\<not> is_blank l \<Longrightarrow>
   spec_blank_groups (l # ls) =
     (l # takeWhile (\<lambda>x. \<not> is_blank x \<and> \<not> has_indent x) ls)
       # spec_blank_groups (dropWhile (\<lambda>x. \<not> is_blank x \<and> \<not> has_indent x) ls)"
proof (induction ls arbitrary: l)
  case Nil
  then show ?case by (simp add: spec_blank_groups_def)
next
  case (Cons x xs)
  show ?case
  proof (cases "is_blank x")
    case True
    then show ?thesis using Cons.prems by (simp add: spec_blank_groups_def)
  next
    case nb: False
    show ?thesis
    proof (cases "has_indent x")
      case True
      then show ?thesis using nb Cons.prems by (simp add: spec_blank_groups_break)
    next
      case False
      then show ?thesis
        using nb Cons.prems Cons.IH[OF nb] by (simp add: spec_blank_groups_step)
    qed
  qed
qed

lemma blank_loop_groups:
  "final_flush ind (blank_loop ind ls cur paras) =
     (if cur = [] then paras @ map (spec_paragraph ind) (spec_blank_groups ls)
      else paras @
        p_tag ind (concat (cur @ map strip (takeWhile (\<lambda>x. \<not> is_blank x \<and> \<not> has_indent x) ls)))
          # map (spec_paragraph ind)
              (spec_blank_groups (dropWhile (\<lambda>x. \<not> is_blank x \<and> \<not> has_indent x) ls)))"
proof (induction ls arbitrary: cur paras)
  case Nil
  then show ?case by (simp add: final_flush_def spec_blank_groups_Nil)
next
  case (Cons x xs)
  show ?case
  proof (cases "is_blank x")
    case True
    then show ?thesis
      using Cons.IH[of "[]"] Cons.IH[of cur]
      by (simp add: is_blank_def[symmetric] spec_blank_groups_blank)
  next
    case nb: False
    then have sx: "strip x \<noteq> []" by (simp add: is_blank_def)
    show ?thesis
    proof (cases "cur = []")
      case True
      then show ?thesis
        using nb sx Cons.IH[of "[strip x]" paras]
        by (simp add: strip_remove_indent spec_blank_groups_Cons spec_paragraph_def line_text_strip map_line_text
            is_blank_def[symmetric])
    next
      case cne: False
      show ?thesis
      proof (cases "has_indent x")
        case True
        then show ?thesis
          using nb sx cne Cons.IH[of "[strip x]" "paras @ [p_tag ind (concat cur)]"]
          by (simp add: strip_remove_indent spec_blank_groups_Cons spec_paragraph_def
              line_text_strip map_line_text is_blank_def[symmetric])
      next
        case False
        then show ?thesis
          using nb sx cne Cons.IH[of "cur @ [strip x]" paras]
          by (simp add: is_blank_def[symmetric])
      qed
    qed
  qed
qed

lemma indent_loop_blank_loop:
  "indent_loop ind ls cur paras = blank_loop ind ls cur paras"
  by (induction ls arbitrary: cur paras) (simp_all add: Let_def)

lemma line_loop_groups:
  "line_loop ind ls paras = paras @ map (spec_paragraph ind) (spec_line_groups ls)"
  by (induction ls arbitrary: paras)
    (simp_all add: spec_line_groups_def Let_def is_blank_def spec_paragraph_def line_text_strip
      strip_remove_indent)

lemma spec_punct_groups_end:
  "ends_paragraph l \<Longrightarrow> spec_punct_groups (l # ls) = [l] # spec_punct_groups ls"
  by simp

lemma spec_punct_groups_cont:
  "\<not> ends_paragraph l \<Longrightarrow>
   spec_punct_groups (l # ls) =
     (case ls of [] \<Rightarrow> [[l]]
      | _ # _ \<Rightarrow> (l # hd (spec_punct_groups ls)) # tl (spec_punct_groups ls))"
  by (cases ls) simp_all

lemma punct_loop_groups:
  "\<forall>l \<in> set ls. \<not> is_blank l \<Longrightarrow>
   final_flush ind (punct_loop ind ls cur paras) =
     paras @
       (if ls = [] then (if cur = [] then [] else [p_tag ind (concat cur)])
        else p_tag ind (concat (cur @ map strip (hd (spec_punct_groups ls))))
               # map (spec_paragraph ind) (tl (spec_punct_groups ls)))"
proof (induction ls arbitrary: cur paras)
  case Nil
  then show ?case by (simp add: final_flush_def)
next
  case (Cons x xs)
  from Cons.prems have nb: "strip x \<noteq> []" and rest: "\<forall>l \<in> set xs. \<not> is_blank l"
    by (simp_all add: is_blank_def)
  show ?case
  proof (cases "ends_paragraph x")
    case True
    then have e: "last (strip x) \<in> set para_end_chars" by (simp add: ends_paragraph_def)
    have sp: "spec_punct_groups (x # xs) = [x] # spec_punct_groups xs"
      using True by (rule spec_punct_groups_end)
    have "final_flush ind (punct_loop ind (x # xs) cur paras) =
          final_flush ind (punct_loop ind xs [] (paras @ [p_tag ind (concat (cur @ [strip x]))]))"
      using nb e by (simp add: Let_def)
    also have "\<dots> = (paras @ [p_tag ind (concat (cur @ [strip x]))]) @
        (if xs = [] then []
         else p_tag ind (concat (map strip (hd (spec_punct_groups xs))))
                # map (spec_paragraph ind) (tl (spec_punct_groups xs)))"
      using Cons.IH[OF rest, of "[]"] by simp
    also have "\<dots> = paras @ p_tag ind (concat (cur @ map strip [x]))
                # map (spec_paragraph ind) (spec_punct_groups xs)"
      by (cases xs) (simp_all add: spec_paragraph_def map_line_text)
    finally show ?thesis by (simp add: sp del: spec_punct_groups.simps)
  next
    case False
    then have e: "last (strip x) \<notin> set para_end_chars" using nb by (simp add: ends_paragraph_def)
    have "final_flush ind (punct_loop ind (x # xs) cur paras) =
          final_flush ind (punct_loop ind xs (cur @ [strip x]) paras)"
      using nb e by (simp add: Let_def)
    also have "\<dots> = paras @
        (if xs = [] then [p_tag ind (concat (cur @ [strip x]))]
         else p_tag ind (concat ((cur @ [strip x]) @ map strip (hd (spec_punct_groups xs))))
                # map (spec_paragraph ind) (tl (spec_punct_groups xs)))"
      using Cons.IH[OF rest, of "cur @ [strip x]"] by simp
    finally show ?thesis
      using False by (cases xs) (simp_all add: spec_punct_groups_cont del: spec_punct_groups.simps)
  qed
qed

lemma punct_loop_groups_start:
  assumes "\<forall>l \<in> set ls. \<not> is_blank l"
  shows "final_flush ind (punct_loop ind ls [] []) =
           map (spec_paragraph ind) (spec_punct_groups ls)"
proof (cases ls)
  case Nil
  then show ?thesis by (simp add: final_flush_def)
next
  case (Cons x xs)
  then have "spec_punct_groups ls \<noteq> []" by simp
  then show ?thesis
    using punct_loop_groups[OF assms, of ind "[]" "[]"] Cons
    by (cases "spec_punct_groups ls") (simp_all add: spec_paragraph_def map_line_text del: spec_punct_groups.simps)
qed

lemma has_blank_lines_iff: "has_blank_lines ls \<longleftrightarrow> (\<exists>l \<in> set ls. is_blank l)"
  by (simp add: has_blank_lines_def is_blank_def list_ex_iff)

lemma has_indented_lines_iff:
  "has_indented_lines ls \<longleftrightarrow> (\<exists>l \<in> set ls. \<not> is_blank l \<and> has_indent l)"
  by (auto simp: has_indented_lines_def is_blank_def list_ex_iff)

lemma process_paragraphs_line:
  "process_paragraphs ls ''line'' fi = map (spec_paragraph (indent_str fi)) (spec_line_groups ls)"
  by (simp add: process_paragraphs.simps line_loop_groups)

lemma process_paragraphs_blank:
  "process_paragraphs ls ''blank'' fi = map (spec_paragraph (indent_str fi)) (spec_blank_groups ls)"
  by (simp add: process_paragraphs.simps blank_loop_groups)

lemma process_paragraphs_smart_indented:
  "has_indented_lines ls \<Longrightarrow>
   process_paragraphs ls ''smart'' fi = map (spec_paragraph (indent_str fi)) (spec_blank_groups ls)"
  by (simp add: process_paragraphs.simps[of ls "''smart''"] indent_loop_blank_loop blank_loop_groups)

lemma process_paragraphs_smart_blank:
  "\<not> has_indented_lines ls \<Longrightarrow> has_blank_lines ls \<Longrightarrow>
   process_paragraphs ls ''smart'' fi = process_paragraphs ls ''blank'' fi"
  by (simp add: process_paragraphs.simps[of ls "''smart''"])

lemma process_paragraphs_smart_punct:
  "\<not> has_indented_lines ls \<Longrightarrow> \<not> has_blank_lines ls \<Longrightarrow>
   process_paragraphs ls ''smart'' fi = map (spec_paragraph (indent_str fi)) (spec_punct_groups ls)"
  by (simp add: process_paragraphs.simps[of ls "''smart''"] punct_loop_groups_start has_blank_lines_iff)

lemma process_paragraphs_other:
  "mode \<noteq> ''line'' \<Longrightarrow> mode \<noteq> ''blank'' \<Longrightarrow> mode \<noteq> ''smart'' \<Longrightarrow>
   process_paragraphs ls mode fi = []"
  by (simp add: process_paragraphs.simps)

lemma paragraph_text_p_tag: "paragraph_text fi (p_tag (indent_str fi) t) = t"
proof -
  let ?i = "indent_str fi"
  have n: "3 + length ?i = length ([60, 112, 62] @ ?i)" by simp
  have "drop (3 + length ?i) (p_tag ?i t) = drop (length ([60, 112, 62] @ ?i)) (([60, 112, 62] @ ?i) @ (t @ [60, 47, 112, 62]))"
    unfolding n by (simp add: p_tag_def)
  also have "\<dots> = t @ [60, 47, 112, 62]"
    by (rule append_eq_conv_conj[THEN iffD1, THEN conjunct2, symmetric]) (rule refl)
  finally have d: "drop (3 + length ?i) (p_tag ?i t) = t @ [60, 47, 112, 62]" .
  show ?thesis
    unfolding paragraph_text_def Let_def d by simp
qed

lemma spec_paragraph_strip: "spec_paragraph ind g = p_tag ind (concat (map strip g))"
  by (simp add: spec_paragraph_def map_line_text)

lemma indent_loop_simulation:
  "final_flush ind (indent_loop ind ls (map strip buf) (map (spec_paragraph ind) out)) =
     map (spec_paragraph ind)
       (case foldl spec_indent_step (buf, out) ls of (b, out') \<Rightarrow> spec_flush b out')"
proof (induction ls arbitrary: buf out)
  case Nil
  then show ?case
    by (simp add: final_flush_def spec_flush_def spec_paragraph_strip)
next
  case (Cons x xs)
  have fl: "map (spec_paragraph ind) (spec_flush buf out) =
      (if buf = [] then map (spec_paragraph ind) out
       else map (spec_paragraph ind) out @ [p_tag ind (concat (map strip buf))])"
    by (simp add: spec_flush_def spec_paragraph_strip)
  show ?case
  proof (cases "is_blank x")
    case True
    then have st: "spec_indent_step (buf, out) x = ([], spec_flush buf out)"
      by (simp add: spec_indent_step_def)
    from True have sx: "strip x = []" by (simp add: is_blank_def)
    have "final_flush ind (indent_loop ind (x # xs) (map strip buf) (map (spec_paragraph ind) out))
        = final_flush ind (indent_loop ind xs (map strip []) (map (spec_paragraph ind) (spec_flush buf out)))"
      using sx by (simp add: fl)
    then show ?thesis
      unfolding Cons.IH by (simp add: st)
  next
    case nb: False
    then have sx: "strip x \<noteq> []" by (simp add: is_blank_def)
    show ?thesis
    proof (cases "has_indent x")
      case True
      then have st: "spec_indent_step (buf, out) x = ([x], spec_flush buf out)"
        using nb by (simp add: spec_indent_step_def)
      have "final_flush ind (indent_loop ind (x # xs) (map strip buf) (map (spec_paragraph ind) out))
        = final_flush ind (indent_loop ind xs (map strip [x]) (map (spec_paragraph ind) (spec_flush buf out)))"
        using sx True by (simp add: fl strip_remove_indent)
      then show ?thesis
        unfolding Cons.IH by (simp add: st)
    next
      case False
      then have st: "spec_indent_step (buf, out) x = (buf @ [x], out)"
        using nb by (simp add: spec_indent_step_def)
      have "final_flush ind (indent_loop ind (x # xs) (map strip buf) (map (spec_paragraph ind) out))
        = final_flush ind (indent_loop ind xs (map strip (buf @ [x])) (map (spec_paragraph ind) out))"
        using sx False by simp
      then show ?thesis
        unfolding Cons.IH by (simp add: st)
    qed
  qed
qed

lemma indent_loop_spec:
  "final_flush ind (indent_loop ind ls [] []) = map (spec_paragraph ind) (spec_indent_groups ls)"
  using indent_loop_simulation[of ind ls "[]" "[]"] by (simp add: spec_indent_groups_def)

lemmas classifier_defs = strip_def isspace_def has_indent_def startswith_def remove_indent_def
  lstrip_chars_def is_blank_def line_text_def

lemmas segmenter_defs = process_paragraphs.simps has_indented_lines_def has_blank_lines_def
  final_flush_def p_tag_def indent_str_def para_end_chars_def





lemma process_paragraphs_groups:
  "process_paragraphs ls mode fi = map (spec_paragraph (indent_str fi)) (spec_groups mode ls)"
proof -
  consider (l) "mode = ''line''" | (b) "mode = ''blank''" | (s) "mode = ''smart''"
    | (o) "mode \<noteq> ''line''" "mode \<noteq> ''blank''" "mode \<noteq> ''smart''"
    by blast
  then show ?thesis
  proof cases
    case l
    then show ?thesis by (simp add: spec_groups_def process_paragraphs_line)
  next
    case b
    then show ?thesis by (simp add: spec_groups_def process_paragraphs_blank)
  next
    case s
    show ?thesis
    proof (cases "has_indented_lines ls")
      case True
      then show ?thesis using s by (simp add: spec_groups_def process_paragraphs_smart_indented)
    next
      case False
      then show ?thesis
        using s
        by (cases "has_blank_lines ls")
          (simp_all add: spec_groups_def process_paragraphs_smart_blank
            process_paragraphs_smart_punct process_paragraphs_blank)
    qed
  next
    case o
    then show ?thesis by (simp add: spec_groups_def process_paragraphs_other)
  qed
qed

lemma concat_spec_split_indented: "concat (spec_split_indented r) = r"
  by (induction r rule: spec_split_indented.induct) simp_all

lemma concat_spec_runs: "concat (spec_runs ls) = filter (\<lambda>l. \<not> is_blank l) ls"
proof (induction ls rule: spec_runs.induct)
  case 1
  then show ?case by simp
next
  case (2 l ls)
  have "filter (\<lambda>l. \<not> is_blank l) ls =
      takeWhile (\<lambda>x. \<not> is_blank x) ls @ filter (\<lambda>l. \<not> is_blank l) (dropWhile (\<lambda>x. \<not> is_blank x) ls)"
    by (induction ls) auto
  then show ?case using 2 by simp
qed

lemma concat_spec_blank_groups: "concat (spec_blank_groups ls) = filter (\<lambda>l. \<not> is_blank l) ls"
proof -
  have "\<And>rs. concat (concat (map spec_split_indented rs)) = concat rs"
    subgoal for rs by (induction rs) (simp_all add: concat_spec_split_indented)
    done
  then show ?thesis by (simp add: spec_blank_groups_def concat_spec_runs)
qed

lemma concat_spec_punct_groups: "concat (spec_punct_groups ls) = ls"
proof (induction ls rule: spec_punct_groups.induct)
  case 1
  then show ?case by simp
next
  case (2 l ls)
  let ?d = "dropWhile (\<lambda>x. \<not> ends_paragraph x) (l # ls)"
  have "l # ls = takeWhile (\<lambda>x. \<not> ends_paragraph x) (l # ls) @ take 1 ?d @ drop 1 ?d"
    by (simp only: append_take_drop_id takeWhile_dropWhile_id)
  then show ?case using 2 by (simp only: spec_punct_groups.simps concat.simps append_assoc)
qed

lemma concat_spec_line_groups: "concat (spec_line_groups ls) = filter (\<lambda>l. \<not> is_blank l) ls"
  by (induction ls) (simp_all add: spec_line_groups_def)

lemma spec_split_indented_nonempty: "[] \<notin> set (spec_split_indented r)"
  by (induction r rule: spec_split_indented.induct) simp_all

lemma spec_blank_groups_nonempty: "[] \<notin> set (spec_blank_groups ls)"
  by (auto simp: spec_blank_groups_def spec_split_indented_nonempty)

lemma spec_punct_groups_nonempty: "[] \<notin> set (spec_punct_groups ls)"
proof (induction ls rule: spec_punct_groups.induct)
  case 1
  then show ?case by simp
next
  case (2 l ls)
  have "takeWhile (\<lambda>x. \<not> ends_paragraph x) (l # ls)
          @ take 1 (dropWhile (\<lambda>x. \<not> ends_paragraph x) (l # ls)) \<noteq> []"
    by (cases "ends_paragraph l") simp_all
  then show ?case using 2 by (simp del: takeWhile.simps dropWhile.simps)
qed

lemma spec_groups_nonempty: "[] \<notin> set (spec_groups mode ls)"
  by (auto simp: spec_groups_def spec_line_groups_def spec_blank_groups_nonempty
      spec_punct_groups_nonempty)

lemma concat_spec_groups:
  assumes "mode = ''line'' \<or> mode = ''blank'' \<or> mode = ''smart''"
  shows "concat (spec_groups mode ls) = filter (\<lambda>l. \<not> is_blank l) ls"
proof -
  have "\<not> has_blank_lines ls \<Longrightarrow> filter (\<lambda>l. \<not> is_blank l) ls = ls"
    by (simp add: has_blank_lines_iff)
  then show ?thesis
    using assms
    by (auto simp: spec_groups_def concat_spec_line_groups concat_spec_blank_groups
        concat_spec_punct_groups)
qed

lemma last_strip: "strip s \<noteq> [] \<Longrightarrow> \<not> isspace (last (strip s))"
proof -
  assume ne: "strip s \<noteq> []"
  let ?d = "dropWhile isspace (rev (dropWhile isspace s))"
  have "?d \<noteq> []" using ne by (simp add: strip_def)
  then have "\<not> isspace (hd ?d)" by (rule hd_dropWhile)
  moreover have "last (strip s) = hd ?d"
    using \<open>?d \<noteq> []\<close> by (simp add: strip_def last_rev)
  ultimately show ?thesis by simp
qed

lemma strip_solid:
  assumes "s \<noteq> []" "\<not> isspace (hd s)" "\<not> isspace (last s)"
  shows "strip s = s"
proof -
  have a: "dropWhile isspace s = s" using assms by (simp add: dropWhile_eq_self_iff)
  have "dropWhile isspace (rev s) = rev s"
    using assms by (simp add: dropWhile_eq_self_iff hd_rev)
  then show ?thesis by (simp add: strip_def a)
qed

lemma has_indent_hd: "has_indent s \<Longrightarrow> s \<noteq> [] \<and> isspace (hd s)"
  by (cases s) (auto simp: has_indent_def startswith_def isspace_def split: if_splits)

lemma solid_lines_flags:
  assumes "\<forall>p \<in> set ps. p \<noteq> [] \<and> \<not> isspace (hd p) \<and> \<not> isspace (last p)"
  shows "\<not> has_indented_lines ps \<and> \<not> has_blank_lines ps"
proof -
  have "\<And>p. p \<in> set ps \<Longrightarrow> \<not> is_blank p"
    using assms strip_solid by (auto simp: is_blank_def)
  moreover have "\<And>p. p \<in> set ps \<Longrightarrow> \<not> has_indent p"
    using assms has_indent_hd by blast
  ultimately show ?thesis
    by (auto simp: has_indented_lines_iff has_blank_lines_iff)
qed

lemma p_tag_solid:
  "p_tag ind t \<noteq> [] \<and> \<not> isspace (hd (p_tag ind t)) \<and> \<not> isspace (last (p_tag ind t))"
  by (simp add: p_tag_def isspace_def)

lemma group_text_solid:
  assumes "g \<noteq> []" "\<forall>l \<in> set g. \<not> is_blank l"
  shows "concat (map strip g) \<noteq> [] \<and> \<not> isspace (hd (concat (map strip g)))
         \<and> \<not> isspace (last (concat (map strip g)))"
proof -
  obtain x xs where g: "g = x # xs" using assms(1) by (cases g) auto
  obtain ys y where g': "g = ys @ [y]" using assms(1) by (cases g rule: rev_cases) auto
  have x: "strip x \<noteq> []" using assms(2) g by (simp add: is_blank_def)
  have y: "strip y \<noteq> []" using assms(2) g' by (simp add: is_blank_def)
  have h: "hd (concat (map strip g)) = hd (strip x)" using x g by simp
  have l: "last (concat (map strip g)) = last (strip y)" using y g' by simp
  show ?thesis using x h l hd_strip[OF x] last_strip[OF y] g by simp
qed

lemma spec_groups_lines:
  assumes "g \<in> set (spec_groups mode ls)"
  shows "g \<noteq> [] \<and> (\<forall>l \<in> set g. \<not> is_blank l)"
proof -
  have ne: "g \<noteq> []" using assms spec_groups_nonempty by metis
  have valid: "mode = ''line'' \<or> mode = ''blank'' \<or> mode = ''smart''"
    using assms by (auto simp: spec_groups_def split: if_splits)
  have "set g \<subseteq> set (concat (spec_groups mode ls))" using assms by auto
  then have "set g \<subseteq> set (filter (\<lambda>l. \<not> is_blank l) ls)"
    by (simp only: concat_spec_groups[OF valid])
  then show ?thesis using ne by auto
qed

lemma paragraph_texts:
  "map (paragraph_text fi) (process_paragraphs ls mode fi) =
     map (\<lambda>g. concat (map strip g)) (spec_groups mode ls)"
  by (simp add: process_paragraphs_groups spec_paragraph_strip paragraph_text_p_tag comp_def)

lemma finish_chapter_section:
  "finish_chapter mode fi title buf chapters =
     chapters @ map (spec_chapter mode fi) (filter (spec_emitted mode fi) [(title, buf)])"
  by (simp add: finish_chapter_def spec_chapter_def spec_emitted_def Let_def)

lemma spec_sections_blank:
  "is_blank x \<Longrightarrow>
   (title, buf @ map buffer_line (takeWhile (\<lambda>l. \<not> is_heading pat l) (x # xs)))
     # (case dropWhile (\<lambda>l. \<not> is_heading pat l) (x # xs) of
          [] \<Rightarrow> [] | h # rest \<Rightarrow> spec_sections pat (strip h) rest) =
   (title, (buf @ [[]]) @ map buffer_line (takeWhile (\<lambda>l. \<not> is_heading pat l) xs))
     # (case dropWhile (\<lambda>l. \<not> is_heading pat l) xs of
          [] \<Rightarrow> [] | h # rest \<Rightarrow> spec_sections pat (strip h) rest)"
  by (simp add: is_heading_def buffer_line_def)

lemma spec_sections_plain:
  "\<not> is_blank x \<Longrightarrow> \<not> is_heading pat x \<Longrightarrow>
   (title, buf @ map buffer_line (takeWhile (\<lambda>l. \<not> is_heading pat l) (x # xs)))
     # (case dropWhile (\<lambda>l. \<not> is_heading pat l) (x # xs) of
          [] \<Rightarrow> [] | h # rest \<Rightarrow> spec_sections pat (strip h) rest) =
   (title, (buf @ [x]) @ map buffer_line (takeWhile (\<lambda>l. \<not> is_heading pat l) xs))
     # (case dropWhile (\<lambda>l. \<not> is_heading pat l) xs of
          [] \<Rightarrow> [] | h # rest \<Rightarrow> spec_sections pat (strip h) rest)"
  by (simp add: buffer_line_def)

lemma spec_sections_heading:
  "is_heading pat x \<Longrightarrow>
   (title, buf @ map buffer_line (takeWhile (\<lambda>l. \<not> is_heading pat l) (x # xs)))
     # (case dropWhile (\<lambda>l. \<not> is_heading pat l) (x # xs) of
          [] \<Rightarrow> [] | h # rest \<Rightarrow> spec_sections pat (strip h) rest) =
   (title, buf) # spec_sections pat (strip x) xs"
  by simp

lemma chapter_loop_sections:
  "(case chapter_loop pat mode fi ls title buf chapters of
      (t, b, cs) \<Rightarrow> finish_chapter mode fi t b cs) =
   chapters @ map (spec_chapter mode fi) (filter (spec_emitted mode fi)
     ((title, buf @ map buffer_line (takeWhile (\<lambda>l. \<not> is_heading pat l) ls))
       # (case dropWhile (\<lambda>l. \<not> is_heading pat l) ls of
            [] \<Rightarrow> [] | h # rest \<Rightarrow> spec_sections pat (strip h) rest)))"
proof (induction ls arbitrary: title buf chapters)
  case Nil
  then show ?case by (simp add: finish_chapter_section)
next
  case (Cons x xs)
  show ?case
  proof (cases "is_blank x")
    case True
    then have sx: "strip x = []" by (simp add: is_blank_def)
    have "(case chapter_loop pat mode fi (x # xs) title buf chapters of
             (t, b, cs) \<Rightarrow> finish_chapter mode fi t b cs) =
          (case chapter_loop pat mode fi xs title (buf @ [[]]) chapters of
             (t, b, cs) \<Rightarrow> finish_chapter mode fi t b cs)"
      using sx by simp
    then show ?thesis
      unfolding spec_sections_blank[OF True] Cons.IH .
  next
    case nb: False
    then have sx: "strip x \<noteq> []" by (simp add: is_blank_def)
    show ?thesis
    proof (cases "pat (strip x)")
      case True
      then have h: "is_heading pat x" using nb by (simp add: is_heading_def)
      have "(case chapter_loop pat mode fi (x # xs) title buf chapters of
               (t, b, cs) \<Rightarrow> finish_chapter mode fi t b cs) =
            (case chapter_loop pat mode fi xs (strip x) []
                    (finish_chapter mode fi title buf chapters) of
               (t, b, cs) \<Rightarrow> finish_chapter mode fi t b cs)"
        using sx True by simp
      also have "\<dots> = finish_chapter mode fi title buf chapters @
          map (spec_chapter mode fi) (filter (spec_emitted mode fi) (spec_sections pat (strip x) xs))"
        unfolding Cons.IH by (simp add: spec_sections.simps[of pat "strip x" xs])
      finally show ?thesis
        unfolding spec_sections_heading[OF h] by (simp add: finish_chapter_section)
    next
      case False
      then have h: "\<not> is_heading pat x" by (simp add: is_heading_def)
      have "(case chapter_loop pat mode fi (x # xs) title buf chapters of
               (t, b, cs) \<Rightarrow> finish_chapter mode fi t b cs) =
            (case chapter_loop pat mode fi xs title (buf @ [x]) chapters of
               (t, b, cs) \<Rightarrow> finish_chapter mode fi t b cs)"
        using sx False by simp
      then show ?thesis
        unfolding spec_sections_plain[OF nb h] Cons.IH .
    qed
  qed
qed

lemma chapters_of_lines_sections:
  "chapters_of_lines pat mode fi lines =
     map (spec_chapter mode fi)
       (filter (spec_emitted mode fi) (spec_sections pat preface_title lines))"
  unfolding chapters_of_lines_def chapter_loop_sections
  by (simp add: spec_sections.simps[of pat preface_title lines])

lemma spec_sections_last:
  "dropWhile (\<lambda>l. \<not> is_heading pat l) ls = [] \<Longrightarrow>
   spec_sections pat title ls = [(title, map buffer_line ls)]"
proof -
  assume d: "dropWhile (\<lambda>l. \<not> is_heading pat l) ls = []"
  have "takeWhile (\<lambda>l. \<not> is_heading pat l) ls = ls"
    using takeWhile_dropWhile_id[of "\<lambda>l. \<not> is_heading pat l" ls] unfolding d by simp
  then show ?thesis
    by (simp only: spec_sections.simps[of pat title ls] d list.case)
qed

lemma spec_sections_more:
  "dropWhile (\<lambda>l. \<not> is_heading pat l) ls = h # rest \<Longrightarrow>
   spec_sections pat title ls =
     (title, map buffer_line (takeWhile (\<lambda>l. \<not> is_heading pat l) ls))
       # spec_sections pat (strip h) rest"
  by (simp only: spec_sections.simps[of pat title ls] list.case)

lemma spec_sections_titles:
  "map fst (spec_sections pat title ls) = title # map strip (filter (is_heading pat) ls)"
proof (induction pat title ls rule: spec_sections.induct)
  case (1 pat title ls)
  let ?d = "dropWhile (\<lambda>l. \<not> is_heading pat l) ls"
  have f: "filter (is_heading pat) ls = filter (is_heading pat) ?d"
    by (induction ls) auto
  show ?case
  proof (cases ?d)
    case Nil
    show ?thesis unfolding spec_sections_last[OF Nil] f Nil by simp
  next
    case (Cons h rest)
    then have "is_heading pat h"
      using hd_dropWhile[of "\<lambda>l. \<not> is_heading pat l" ls] by force
    then show ?thesis
      unfolding spec_sections_more[OF Cons] f Cons using 1[OF Cons] by simp
  qed
qed

lemma spec_sections_lines:
  "concat (map snd (spec_sections pat title ls)) =
     map buffer_line (filter (\<lambda>l. \<not> is_heading pat l) ls)"
proof (induction pat title ls rule: spec_sections.induct)
  case (1 pat title ls)
  let ?t = "takeWhile (\<lambda>l. \<not> is_heading pat l) ls"
  let ?d = "dropWhile (\<lambda>l. \<not> is_heading pat l) ls"
  have f: "filter (\<lambda>l. \<not> is_heading pat l) ls = ?t @ filter (\<lambda>l. \<not> is_heading pat l) ?d"
    by (induction ls) auto
  show ?case
  proof (cases ?d)
    case Nil
    have "filter (\<lambda>l. \<not> is_heading pat l) ls = ls"
      using f takeWhile_dropWhile_id[of "\<lambda>l. \<not> is_heading pat l" ls] unfolding Nil by simp
    then show ?thesis unfolding spec_sections_last[OF Nil] by simp
  next
    case (Cons h rest)
    then have h: "is_heading pat h"
      using hd_dropWhile[of "\<lambda>l. \<not> is_heading pat l" ls] by force
    have "filter (\<lambda>l. \<not> is_heading pat l) ls = ?t @ filter (\<lambda>l. \<not> is_heading pat l) rest"
      using f h unfolding Cons by simp
    then show ?thesis
      unfolding spec_sections_more[OF Cons] using 1[OF Cons] by simp
  qed
qed

lemma split_nl_nonempty: "split_nl s \<noteq> []"
  by (induction s) (auto split: list.splits)

lemma split_nl_no_newline: "l \<in> set (split_nl s) \<Longrightarrow> 10 \<notin> set l"
proof (induction s arbitrary: l)
  case Nil
  then show ?case by simp
next
  case (Cons c cs)
  obtain h t where ht: "split_nl cs = h # t"
    using split_nl_nonempty[of cs] by (cases "split_nl cs") auto
  show ?case
  proof (cases "c = 10")
    case True
    then show ?thesis using Cons by auto
  next
    case False
    then have "l = c # h \<or> l \<in> set t" using Cons.prems ht by simp
    then show ?thesis using False Cons.IH ht by auto
  qed
qed

lemma split_nl_line: "10 \<notin> set p \<Longrightarrow> split_nl p = [p]"
  by (induction p) auto

lemma split_nl_append: "10 \<notin> set p \<Longrightarrow> split_nl (p @ 10 # s) = p # split_nl s"
  by (induction p) auto

lemma split_join_nl:
  "ps \<noteq> [] \<Longrightarrow> \<forall>p \<in> set ps. 10 \<notin> set p \<Longrightarrow> split_nl (join_nl ps) = ps"
proof (induction ps rule: join_nl.induct)
  case 1
  then show ?case by simp
next
  case (2 p)
  then show ?case by (simp add: split_nl_line)
next
  case (3 p q ps)
  then show ?case by (simp add: split_nl_append)
qed

lemma spec_groups_subset:
  assumes "g \<in> set (spec_groups mode ls)"
  shows "set g \<subseteq> set ls"
proof -
  have valid: "mode = ''line'' \<or> mode = ''blank'' \<or> mode = ''smart''"
    using assms by (auto simp: spec_groups_def split: if_splits)
  have "set g \<subseteq> set (concat (spec_groups mode ls))" using assms by auto
  then show ?thesis
    by (simp only: concat_spec_groups[OF valid]) auto
qed

lemma process_paragraphs_no_newline:
  assumes "\<forall>l \<in> set buf. 10 \<notin> set l" "p \<in> set (process_paragraphs buf mode fi)"
  shows "10 \<notin> set p"
proof -
  obtain g where g: "g \<in> set (spec_groups mode buf)"
      and p: "p = p_tag (indent_str fi) (concat (map strip g))"
    using assms(2) by (auto simp: process_paragraphs_groups spec_paragraph_strip)
  have "\<forall>l \<in> set g. 10 \<notin> set (strip l)"
    using spec_groups_subset[OF g] assms(1) set_strip by blast
  then show ?thesis
    unfolding p by (auto simp: p_tag_def indent_str_def)
qed

lemma concat_map_concat:
  "concat (map (\<lambda>g. concat (map f g)) gs) = concat (map f (concat gs))"
  by (induction gs) simp_all

lemma process_paragraphs_text:
  assumes "mode = ''line'' \<or> mode = ''blank'' \<or> mode = ''smart''"
  shows "concat (map (paragraph_text fi) (process_paragraphs buf mode fi)) =
           concat (map strip (filter (\<lambda>l. \<not> is_blank l) buf))"
proof -
  show ?thesis
    by (simp add: paragraph_texts concat_map_concat concat_spec_groups[OF assms])
qed

lemma process_paragraphs_empty_iff:
  assumes "mode = ''line'' \<or> mode = ''blank'' \<or> mode = ''smart''"
  shows "process_paragraphs buf mode fi = [] \<longleftrightarrow> (\<forall>l \<in> set buf. is_blank l)"
proof -
  have "spec_groups mode buf = [] \<longleftrightarrow> concat (spec_groups mode buf) = []"
    using spec_groups_nonempty[of mode buf] by (cases "spec_groups mode buf") auto
  then show ?thesis
    by (simp add: process_paragraphs_groups concat_spec_groups[OF assms] filter_empty_conv)
qed

lemma spec_sections_no_newline:
  assumes "\<forall>l \<in> set ls. 10 \<notin> set l" "sec \<in> set (spec_sections pat title ls)"
  shows "\<forall>l \<in> set (snd sec). 10 \<notin> set l"
proof -
  have "set (snd sec) \<subseteq> set (concat (map snd (spec_sections pat title ls)))"
    using assms(2) by auto
  then have "set (snd sec) \<subseteq> buffer_line ` set ls"
    unfolding spec_sections_lines by auto
  then show ?thesis using assms(1) by (auto simp: buffer_line_def split: if_splits)
qed

lemma chapter_text_of_section:
  assumes valid: "mode = ''line'' \<or> mode = ''blank'' \<or> mode = ''smart''"
    and nl: "\<forall>l \<in> set (snd sec). 10 \<notin> set l"
  shows "(if spec_emitted mode fi sec
          then concat (map (paragraph_text fi) (split_nl (snd (spec_chapter mode fi sec))))
          else []) =
         concat (map strip (filter (\<lambda>l. \<not> is_blank l) (snd sec)))"
proof (cases "spec_emitted mode fi sec")
  case True
  then have ne: "process_paragraphs (snd sec) mode fi \<noteq> []" by (simp add: spec_emitted_def)
  have "split_nl (join_nl (process_paragraphs (snd sec) mode fi)) =
        process_paragraphs (snd sec) mode fi"
    using ne process_paragraphs_no_newline[OF nl] by (intro split_join_nl) auto
  then show ?thesis
    using True by (simp add: spec_chapter_def process_paragraphs_text[OF valid])
next
  case False
  then have "snd sec = [] \<or> process_paragraphs (snd sec) mode fi = []"
    by (simp add: spec_emitted_def)
  then have "process_paragraphs (snd sec) mode fi = []"
    using process_paragraphs_empty_iff[OF valid, of "[]" fi] by auto
  then have "filter (\<lambda>l. \<not> is_blank l) (snd sec) = []"
    using process_paragraphs_empty_iff[OF valid, of "snd sec" fi] by (simp add: filter_empty_conv)
  then show ?thesis using False by simp
qed

lemma concat_map_filter_if:
  "concat (map f (filter P xs)) = concat (map (\<lambda>x. if P x then f x else []) xs)"
  by (induction xs) auto

lemmas chapter_defs = txt_to_epub_chapters_def chapters_of_lines_def finish_chapter_def
  preface_title_def default_chapter_pattern_def dot_star_end_def

lemma is_blank_buffer_line: "is_blank (buffer_line l) = is_blank l"
  by (simp add: buffer_line_def is_blank_def strip_Nil)

lemma filter_nonblank_buffer_line:
  "filter (\<lambda>l. \<not> is_blank l) (map buffer_line xs) = filter (\<lambda>l. \<not> is_blank l) xs"
  by (induction xs) (auto simp: buffer_line_def is_blank_def strip_Nil)

lemma concat_sections_text:
  "concat (map (\<lambda>sec. concat (map strip (filter (\<lambda>l. \<not> is_blank l) (snd sec)))) secs) =
     concat (map strip (filter (\<lambda>l. \<not> is_blank l) (concat (map snd secs))))"
  by (induction secs) simp_all

lemma nonblank_nonheading:
  "filter (\<lambda>l. \<not> is_blank l) (filter (\<lambda>l. \<not> is_heading pat l) ls) =
     filter (\<lambda>l. \<not> is_blank l \<and> \<not> pat (strip l)) ls"
  by (induction ls) (auto simp: is_heading_def)

section \<open>Claims\<close>

text \<open>
  C1. For each of the three modes and both settings of the indent flag, the textual
  contents of all paragraphs of all chapters, concatenated in order, are the trimmed
  non-blank, non-heading lines of the input concatenated in order.
\<close>

theorem text_preserved:
  assumes "mode = ''line'' \<or> mode = ''blank'' \<or> mode = ''smart''"
  shows "concat (map (\<lambda>ch. concat (map (paragraph_text fi) (split_nl (snd ch))))
                  (txt_to_epub_chapters pat mode fi content)) =
           concat (map strip
             (filter (\<lambda>l. \<not> is_blank l \<and> \<not> pat (strip l)) (split_nl content)))"
proof -
  let ?ls = "split_nl content"
  let ?secs = "spec_sections pat preface_title ?ls"
  let ?text = "\<lambda>ch. concat (map (paragraph_text fi) (split_nl (snd ch)))"
  have nl: "\<forall>l \<in> set ?ls. 10 \<notin> set l" using split_nl_no_newline by blast
  have "concat (map ?text (txt_to_epub_chapters pat mode fi content)) =
        concat (map (\<lambda>sec. ?text (spec_chapter mode fi sec)) (filter (spec_emitted mode fi) ?secs))"
    by (simp add: txt_to_epub_chapters_def chapters_of_lines_sections comp_def)
  also have "\<dots> = concat (map (\<lambda>sec. if spec_emitted mode fi sec
                                        then ?text (spec_chapter mode fi sec) else []) ?secs)"
    by (rule concat_map_filter_if)
  also have "\<dots> = concat (map (\<lambda>sec. concat (map strip (filter (\<lambda>l. \<not> is_blank l) (snd sec)))) ?secs)"
  proof -
    have "\<And>sec. sec \<in> set ?secs \<Longrightarrow>
        (if spec_emitted mode fi sec then ?text (spec_chapter mode fi sec) else []) =
        concat (map strip (filter (\<lambda>l. \<not> is_blank l) (snd sec)))"
      using chapter_text_of_section[OF assms spec_sections_no_newline[OF nl]] by blast
    then show ?thesis by (simp cong: map_cong)
  qed
  also have "\<dots> = concat (map strip (filter (\<lambda>l. \<not> is_blank l) (concat (map snd ?secs))))"
    by (rule concat_sections_text)
  also have "\<dots> = concat (map strip
             (filter (\<lambda>l. \<not> is_blank l \<and> \<not> pat (strip l)) ?ls))"
    by (simp only: spec_sections_lines filter_nonblank_buffer_line nonblank_nonheading)
  finally show ?thesis .
qed

theorem text_preserved_witness:
  "concat (map (\<lambda>ch. concat (map (paragraph_text True) (split_nl (snd ch))))
     (txt_to_epub_chapters default_chapter_pattern ''blank'' True
        [31532, 19968, 31456, 32, 24320, 22987, 10, 20320, 22909, 12290, 10, 10,
         31532, 20108, 31456, 32, 32487, 32493, 10, 12288, 12288, 20877, 35265, 65281])) =
   [20320, 22909, 12290, 20877, 35265, 65281]"
proof -
  have s: "split_nl [31532, 19968, 31456, 32, 24320, 22987, 10, 20320, 22909, 12290, 10, 10,
         31532, 20108, 31456, 32, 32487, 32493, 10, 12288, 12288, 20877, 35265, 65281] =
     [[31532, 19968, 31456, 32, 24320, 22987], [20320, 22909, 12290], [],
      [31532, 20108, 31456, 32, 32487, 32493], [12288, 12288, 20877, 35265, 65281]]"
    by simp
  show ?thesis
    using text_preserved[of "''blank''" True default_chapter_pattern
      "[31532, 19968, 31456, 32, 24320, 22987, 10, 20320, 22909, 12290, 10, 10,
         31532, 20108, 31456, 32, 32487, 32493, 10, 12288, 12288, 20877, 35265, 65281]"]
    unfolding s
    by (simp add: classifier_defs default_chapter_pattern_def dot_star_end_def)
qed

text \<open>
  C2. Mode \<^verbatim>\<open>smart\<close> decides its strategy once per chapter, in priority order. When some
  non-blank line is indented, the paragraphs are those of the buffering state machine
  \<open>spec_indent_groups\<close>: an indented line flushes a non-empty buffer and starts a new
  one, a blank line only flushes, also in this branch, and every paragraph is the trimmed
  texts of its lines joined with no separator, so that no indentation is left in it.
  Otherwise, when some line is blank, the output is the output of mode \<^verbatim>\<open>blank\<close> on the
  same lines.
\<close>

theorem smart_mode_strategy:
  "(has_indented_lines ls \<longrightarrow>
      process_paragraphs ls ''smart'' fi =
        map (\<lambda>g. p_tag (indent_str fi) (concat (map strip g))) (spec_indent_groups ls)) \<and>
   (\<not> has_indented_lines ls \<and> has_blank_lines ls \<longrightarrow>
      process_paragraphs ls ''smart'' fi = process_paragraphs ls ''blank'' fi)"
proof -
  have "spec_paragraph (indent_str fi) = (\<lambda>g. p_tag (indent_str fi) (concat (map strip g)))"
    by (rule ext) (rule spec_paragraph_strip)
  then have "final_flush (indent_str fi) (indent_loop (indent_str fi) ls [] []) =
      map (\<lambda>g. p_tag (indent_str fi) (concat (map strip g))) (spec_indent_groups ls)"
    using indent_loop_spec[of "indent_str fi" ls] by simp
  then show ?thesis
    by (simp add: process_paragraphs.simps[of ls "''smart''"])
qed

theorem smart_mode_strategy_witness:
  "has_indented_lines [[12288, 12288, 30002], [20057], [], [12288, 12288, 19993]] \<and>
   process_paragraphs [[12288, 12288, 30002], [20057], [], [12288, 12288, 19993]] ''smart'' True =
     [[60, 112, 62, 12288, 12288, 30002, 20057, 60, 47, 112, 62],
      [60, 112, 62, 12288, 12288, 19993, 60, 47, 112, 62]] \<and>
   has_indented_lines [[32, 32, 30002, 32], [9, 20057], [12288, 32, 9, 19993], [19969]] \<and>
   process_paragraphs [[32, 32, 30002, 32], [9, 20057], [12288, 32, 9, 19993], [19969]]
       ''smart'' False =
     [[60, 112, 62, 30002, 60, 47, 112, 62], [60, 112, 62, 20057, 60, 47, 112, 62],
      [60, 112, 62, 19993, 19969, 60, 47, 112, 62]] \<and>
   \<not> has_indented_lines [[30002], [], [20057]] \<and> has_blank_lines [[30002], [], [20057]] \<and>
   process_paragraphs [[30002], [], [20057]] ''smart'' True =
     [[60, 112, 62, 12288, 12288, 30002, 60, 47, 112, 62],
      [60, 112, 62, 12288, 12288, 20057, 60, 47, 112, 62]] \<and>
   process_paragraphs [[30002], [], [20057]] ''blank'' True =
     [[60, 112, 62, 12288, 12288, 30002, 60, 47, 112, 62],
      [60, 112, 62, 12288, 12288, 20057, 60, 47, 112, 62]]"
proof -
  have a: "has_indented_lines [[12288, 12288, 30002], [20057], [], [12288, 12288, 19993]]"
    by (simp add: has_indented_lines_def classifier_defs)
  have a': "has_indented_lines [[32, 32, 30002, 32], [9, 20057], [12288, 32, 9, 19993], [19969]]"
    by (simp add: has_indented_lines_def classifier_defs)
  have b: "\<not> has_indented_lines [[30002], [], [20057]] \<and> has_blank_lines [[30002], [], [20057]]"
    by (simp add: has_indented_lines_def has_blank_lines_def classifier_defs)
  have c: "spec_indent_groups [[12288, 12288, 30002], [20057], [], [12288, 12288, 19993]] =
     [[[12288, 12288, 30002], [20057]], [[12288, 12288, 19993]]]"
    by (simp add: spec_indent_groups_def spec_indent_step_def spec_flush_def classifier_defs)
  have c': "spec_indent_groups [[32, 32, 30002, 32], [9, 20057], [12288, 32, 9, 19993], [19969]] =
     [[[32, 32, 30002, 32]], [[9, 20057]], [[12288, 32, 9, 19993], [19969]]]"
    by (simp add: spec_indent_groups_def spec_indent_step_def spec_flush_def classifier_defs)
  have d: "process_paragraphs [[30002], [], [20057]] ''blank'' True =
     [[60, 112, 62, 12288, 12288, 30002, 60, 47, 112, 62],
      [60, 112, 62, 12288, 12288, 20057, 60, 47, 112, 62]]"
    by (simp add: segmenter_defs classifier_defs)
  show ?thesis
    using a a' b d
      smart_mode_strategy[of "[[12288, 12288, 30002], [20057], [], [12288, 12288, 19993]]" True]
      smart_mode_strategy[of "[[32, 32, 30002, 32], [9, 20057], [12288, 32, 9, 19993], [19969]]" False]
      smart_mode_strategy[of "[[30002], [], [20057]]" True]
    unfolding c c'
    by (simp add: classifier_defs p_tag_def indent_str_def)
qed



text \<open>
  C4. When no non-blank line is indented and no line is blank, mode \<^verbatim>\<open>smart\<close> joins the
  trimmed lines of each group of \<open>spec_punct_groups\<close> into one paragraph: a group ends
  right after a line whose trimmed text ends in one of the paragraph-ending characters, and
  the lines left at the end form the last paragraph.
\<close>

theorem punctuation_fallback:
  "\<not> has_indented_lines ls \<Longrightarrow> \<not> has_blank_lines ls \<Longrightarrow>
   process_paragraphs ls ''smart'' fi =
     map (\<lambda>g. p_tag (indent_str fi) (concat (map strip g))) (spec_punct_groups ls)"
proof -
  assume a: "\<not> has_indented_lines ls" "\<not> has_blank_lines ls"
  have "spec_paragraph (indent_str fi) = (\<lambda>g. p_tag (indent_str fi) (concat (map strip g)))"
    by (rule ext) (rule spec_paragraph_strip)
  then show ?thesis
    using process_paragraphs_smart_punct[OF a, of fi] by simp
qed

theorem punctuation_fallback_witness:
  "\<not> has_indented_lines [[19968], [20108, 12290], [19977, 32], [22235]] \<and>
   \<not> has_blank_lines [[19968], [20108, 12290], [19977, 32], [22235]] \<and>
   process_paragraphs [[19968], [20108, 12290], [19977, 32], [22235]] ''smart'' True =
     [[60, 112, 62, 12288, 12288, 19968, 20108, 12290, 60, 47, 112, 62],
      [60, 112, 62, 12288, 12288, 19977, 22235, 60, 47, 112, 62]]"
proof -
  have a: "\<not> has_indented_lines [[19968], [20108, 12290], [19977, 32], [22235]]"
    by (simp add: has_indented_lines_def classifier_defs)
  have b: "\<not> has_blank_lines [[19968], [20108, 12290], [19977, 32], [22235]]"
    by (simp add: has_blank_lines_def classifier_defs)
  have c: "spec_punct_groups [[19968], [20108, 12290], [19977, 32], [22235]] =
      [[[19968], [20108, 12290]], [[19977, 32], [22235]]]"
    by (simp add: ends_paragraph_def para_end_chars_def classifier_defs)
  show ?thesis
    using a b punctuation_fallback[OF a b, of True]
    unfolding c by (simp add: classifier_defs p_tag_def indent_str_def)
qed

text \<open>
  C5, as stated: on the lines U+7532 U+3002, U+4E59 U+FF01, U+4E19 mode \<^verbatim>\<open>smart\<close> would give
  the two paragraphs U+7532 U+3002 and U+4E59 U+FF01 U+4E19. It does not, with either
  setting of the indent flag: three paragraphs come out.
\<close>

theorem punctuation_example_counterexample:
  "map (paragraph_text False)
     (process_paragraphs [[30002, 12290], [20057, 65281], [19993]] ''smart'' False)
     \<noteq> [[30002, 12290], [20057, 65281, 19993]] \<and>
   map (paragraph_text True)
     (process_paragraphs [[30002, 12290], [20057, 65281], [19993]] ''smart'' True)
     \<noteq> [[30002, 12290], [20057, 65281, 19993]] \<and>
   length (process_paragraphs [[30002, 12290], [20057, 65281], [19993]] ''smart'' False) = 3 \<and>
   length (process_paragraphs [[30002, 12290], [20057, 65281], [19993]] ''smart'' True) = 3"
  by (simp add: segmenter_defs classifier_defs paragraph_text_def)

text \<open>
  C5, amended. On these lines the punctuation fallback gives exactly three paragraphs, one
  per line: each of the first two lines ends in a paragraph-ending character and is flushed
  at once, and the last line is the trailing buffer flushed at the end.
\<close>

theorem punctuation_example:
  "process_paragraphs [[30002, 12290], [20057, 65281], [19993]] ''smart'' fi =
     map (p_tag (indent_str fi)) [[30002, 12290], [20057, 65281], [19993]] \<and>
   map (paragraph_text fi)
     (process_paragraphs [[30002, 12290], [20057, 65281], [19993]] ''smart'' fi) =
     [[30002, 12290], [20057, 65281], [19993]]"
proof -
  have "process_paragraphs [[30002, 12290], [20057, 65281], [19993]] ''smart'' fi =
     map (p_tag (indent_str fi)) [[30002, 12290], [20057, 65281], [19993]]"
    by (simp add: process_paragraphs.simps has_indented_lines_def has_blank_lines_def
        final_flush_def para_end_chars_def classifier_defs)
  then show ?thesis by (simp add: paragraph_text_p_tag)
qed

text \<open>
  C6. The paragraph strings that mode \<^verbatim>\<open>smart\<close> returns contain no blank entry and no
  entry classified as indented, so running mode \<^verbatim>\<open>smart\<close> on them again takes the
  punctuation branch; the same holds for their textual contents (markup and indent marker
  removed).
\<close>

theorem smart_rerun_selects_punctuation:
  "\<not> has_indented_lines (process_paragraphs ls ''smart'' fi) \<and>
   \<not> has_blank_lines (process_paragraphs ls ''smart'' fi) \<and>
   process_paragraphs (process_paragraphs ls ''smart'' fi) ''smart'' fi' =
     final_flush (indent_str fi')
       (punct_loop (indent_str fi') (process_paragraphs ls ''smart'' fi) [] []) \<and>
   \<not> has_indented_lines (map (paragraph_text fi) (process_paragraphs ls ''smart'' fi)) \<and>
   \<not> has_blank_lines (map (paragraph_text fi) (process_paragraphs ls ''smart'' fi)) \<and>
   process_paragraphs (map (paragraph_text fi) (process_paragraphs ls ''smart'' fi)) ''smart'' fi' =
     final_flush (indent_str fi')
       (punct_loop (indent_str fi')
          (map (paragraph_text fi) (process_paragraphs ls ''smart'' fi)) [] [])"
proof -
  let ?ps = "process_paragraphs ls ''smart'' fi"
  let ?ts = "map (paragraph_text fi) ?ps"
  have "\<forall>p \<in> set ?ps. p \<noteq> [] \<and> \<not> isspace (hd p) \<and> \<not> isspace (last p)"
    using p_tag_solid by (auto simp: process_paragraphs_groups spec_paragraph_strip)
  then have a: "\<not> has_indented_lines ?ps \<and> \<not> has_blank_lines ?ps"
    by (rule solid_lines_flags)
  have "\<forall>t \<in> set ?ts. t \<noteq> [] \<and> \<not> isspace (hd t) \<and> \<not> isspace (last t)"
    unfolding paragraph_texts using spec_groups_lines group_text_solid by auto
  then have b: "\<not> has_indented_lines ?ts \<and> \<not> has_blank_lines ?ts"
    by (rule solid_lines_flags)
  show ?thesis
    using a b by (simp add: process_paragraphs.simps[of _ "''smart''"])
qed

text \<open>
  C7. The chapters are the sections of the document in source order, those with no
  paragraph left out: the titles are the preface label followed by the trimmed heading
  lines, the section buffers hold exactly the non-heading lines in order, the titles of
  the output are a subsequence of the section titles, and for every buffer the paragraph
  texts are the joined trimmed lines of consecutive groups of its non-blank lines, none of
  them empty.
\<close>

theorem chapter_invariants:
  "chapters_of_lines pat mode fi lines =
     map (\<lambda>(title, buf). (title, join_nl (process_paragraphs buf mode fi)))
       (filter (\<lambda>(title, buf). buf \<noteq> [] \<and> process_paragraphs buf mode fi \<noteq> [])
         (spec_sections pat preface_title lines)) \<and>
   map fst (spec_sections pat preface_title lines) =
     preface_title # map strip (filter (is_heading pat) lines) \<and>
   concat (map snd (spec_sections pat preface_title lines)) =
     map buffer_line (filter (\<lambda>l. \<not> is_heading pat l) lines) \<and>
   subseq (map fst (chapters_of_lines pat mode fi lines))
     (preface_title # map strip (filter (is_heading pat) lines)) \<and>
   map (paragraph_text fi) (process_paragraphs buf mode fi) =
     map (\<lambda>g. concat (map strip g)) (spec_groups mode buf) \<and>
   concat (spec_groups mode buf) =
     (if mode = ''line'' \<or> mode = ''blank'' \<or> mode = ''smart''
      then filter (\<lambda>l. \<not> is_blank l) buf else []) \<and>
   [] \<notin> set (map (paragraph_text fi) (process_paragraphs buf mode fi))"
proof -
  have a: "spec_chapter mode fi = (\<lambda>(title, buf). (title, join_nl (process_paragraphs buf mode fi)))"
    by (rule ext) (simp add: spec_chapter_def split_beta)
  have b: "spec_emitted mode fi = (\<lambda>(title, buf). buf \<noteq> [] \<and> process_paragraphs buf mode fi \<noteq> [])"
    by (rule ext) (simp add: spec_emitted_def split_beta)
  have c1: "chapters_of_lines pat mode fi lines =
     map (\<lambda>(title, buf). (title, join_nl (process_paragraphs buf mode fi)))
       (filter (\<lambda>(title, buf). buf \<noteq> [] \<and> process_paragraphs buf mode fi \<noteq> [])
         (spec_sections pat preface_title lines))"
    unfolding chapters_of_lines_sections a b ..
  have "map fst (chapters_of_lines pat mode fi lines) =
      map fst (filter (spec_emitted mode fi) (spec_sections pat preface_title lines))"
    by (simp add: chapters_of_lines_sections spec_chapter_def comp_def)
  also have "\<dots> = filter (\<lambda>t. True) (map fst (filter (spec_emitted mode fi) (spec_sections pat preface_title lines)))"
    by simp
  finally have c4: "subseq (map fst (chapters_of_lines pat mode fi lines))
     (preface_title # map strip (filter (is_heading pat) lines))"
    using subseq_map[OF subseq_filter_left[of "spec_emitted mode fi" "spec_sections pat preface_title lines"], of fst]
    by (simp add: chapters_of_lines_sections spec_chapter_def comp_def spec_sections_titles)
  have c6: "concat (spec_groups mode buf) =
     (if mode = ''line'' \<or> mode = ''blank'' \<or> mode = ''smart''
      then filter (\<lambda>l. \<not> is_blank l) buf else [])"
    using concat_spec_groups[of mode buf] by (auto simp: spec_groups_def)
  have c7: "[] \<notin> set (map (paragraph_text fi) (process_paragraphs buf mode fi))"
    unfolding paragraph_texts using spec_groups_lines group_text_solid by fastforce
  show ?thesis
    by (intro conjI)
      (rule c1 spec_sections_titles spec_sections_lines c4 paragraph_texts c6 c7)+
qed

theorem chapter_invariants_witness:
  "chapters_of_lines default_chapter_pattern ''blank'' True
     [[31532, 19968, 31456, 32, 24320, 22987], [20320, 22909, 12290], [],
      [31532, 20108, 31456, 32, 32487, 32493], [12288, 12288, 20877, 35265, 65281]] =
     [([31532, 19968, 31456, 32, 24320, 22987],
       [60, 112, 62, 12288, 12288, 20320, 22909, 12290, 60, 47, 112, 62]),
      ([31532, 20108, 31456, 32, 32487, 32493],
       [60, 112, 62, 12288, 12288, 20877, 35265, 65281, 60, 47, 112, 62])]"
proof -
  have s: "spec_sections default_chapter_pattern preface_title
     [[31532, 19968, 31456, 32, 24320, 22987], [20320, 22909, 12290], [],
      [31532, 20108, 31456, 32, 32487, 32493], [12288, 12288, 20877, 35265, 65281]] =
     [(preface_title, []), ([31532, 19968, 31456, 32, 24320, 22987], [[20320, 22909, 12290], []]),
      ([31532, 20108, 31456, 32, 32487, 32493], [[12288, 12288, 20877, 35265, 65281]])]"
    by (simp add: spec_sections.simps is_heading_def buffer_line_def classifier_defs
        default_chapter_pattern_def dot_star_end_def)
  show ?thesis
    using chapter_invariants[of default_chapter_pattern "''blank''" True
     "[[31532, 19968, 31456, 32, 24320, 22987], [20320, 22909, 12290], [],
      [31532, 20108, 31456, 32, 32487, 32493], [12288, 12288, 20877, 35265, 65281]]" "[]"]
    unfolding s
    by (simp add: segmenter_defs classifier_defs)
qed

text \<open>
  C8. The output holds exactly the sections whose line buffer is not empty and whose
  segmentation gives at least one paragraph; every other section is left out, and the
  function returns a chapter list for every input.
\<close>

theorem empty_chapters_dropped:
  "txt_to_epub_chapters pat mode fi content =
     map (\<lambda>(title, buf). (title, join_nl (process_paragraphs buf mode fi)))
       (filter (\<lambda>(title, buf). buf \<noteq> [] \<and> process_paragraphs buf mode fi \<noteq> [])
         (spec_sections pat preface_title (split_nl content)))"
proof -
  have a: "spec_chapter mode fi = (\<lambda>(title, buf). (title, join_nl (process_paragraphs buf mode fi)))"
    by (rule ext) (simp add: spec_chapter_def split_beta)
  have b: "spec_emitted mode fi = (\<lambda>(title, buf). buf \<noteq> [] \<and> process_paragraphs buf mode fi \<noteq> [])"
    by (rule ext) (simp add: spec_emitted_def split_beta)
  show ?thesis
    unfolding txt_to_epub_chapters_def chapters_of_lines_sections a b ..
qed

theorem empty_chapters_dropped_witness:
  "spec_sections default_chapter_pattern preface_title
     (split_nl [31532, 19968, 31456, 10, 10, 31532, 20108, 31456, 10, 27491, 25991, 12290]) =
     [(preface_title, []), ([31532, 19968, 31456], [[]]), ([31532, 20108, 31456], [[27491, 25991, 12290]])] \<and>
   txt_to_epub_chapters default_chapter_pattern ''smart'' False
     [31532, 19968, 31456, 10, 10, 31532, 20108, 31456, 10, 27491, 25991, 12290] =
     [([31532, 20108, 31456], [60, 112, 62, 27491, 25991, 12290, 60, 47, 112, 62])]"
proof -
  have s: "spec_sections default_chapter_pattern preface_title
     (split_nl [31532, 19968, 31456, 10, 10, 31532, 20108, 31456, 10, 27491, 25991, 12290]) =
     [(preface_title, []), ([31532, 19968, 31456], [[]]), ([31532, 20108, 31456], [[27491, 25991, 12290]])]"
    by (simp add: spec_sections.simps is_heading_def buffer_line_def classifier_defs
        default_chapter_pattern_def dot_star_end_def)
  show ?thesis
    using empty_chapters_dropped[of default_chapter_pattern "''smart''" False
      "[31532, 19968, 31456, 10, 10, 31532, 20108, 31456, 10, 27491, 25991, 12290]"]
    unfolding s
    by (simp add: segmenter_defs classifier_defs)
qed

text \<open>
  C9, as stated: a document in which no trimmed line matches the pattern would always give
  a single chapter. A document of blank lines only gives no chapter at all.
\<close>

theorem no_heading_counterexample:
  "\<not> default_chapter_pattern (strip []) \<and>
   split_nl [10] = [[], []] \<and>
   txt_to_epub_chapters default_chapter_pattern ''smart'' True [10] = []"
  by (simp add: chapter_defs segmenter_defs classifier_defs)

text \<open>
  C9, amended. For each of the three modes, when no trimmed line matches the pattern the
  output is one chapter titled with the preface label and holding the segmentation of all
  the lines, provided some line is not blank; when every line is blank the output is empty.
\<close>

theorem no_heading_single_chapter:
  assumes "mode = ''line'' \<or> mode = ''blank'' \<or> mode = ''smart''"
    and "\<forall>l \<in> set (split_nl content). \<not> pat (strip l)"
  shows "txt_to_epub_chapters pat mode fi content =
           (if \<forall>l \<in> set (split_nl content). is_blank l then []
            else [(preface_title,
                   join_nl (process_paragraphs (map buffer_line (split_nl content)) mode fi))])"
proof -
  let ?ls = "split_nl content"
  have "dropWhile (\<lambda>l. \<not> is_heading pat l) ?ls = []"
    using assms(2) by (simp add: is_heading_def)
  then have secs: "spec_sections pat preface_title ?ls = [(preface_title, map buffer_line ?ls)]"
    by (rule spec_sections_last)
  have "spec_emitted mode fi (preface_title, map buffer_line ?ls) \<longleftrightarrow>
        \<not> (\<forall>l \<in> set ?ls. is_blank l)"
    using split_nl_nonempty[of content]
    by (simp add: spec_emitted_def process_paragraphs_empty_iff[OF assms(1)] is_blank_buffer_line)
  then show ?thesis
    by (simp add: txt_to_epub_chapters_def chapters_of_lines_sections secs spec_chapter_def)
qed

theorem no_heading_single_chapter_witness:
  "txt_to_epub_chapters default_chapter_pattern ''line'' True
     [20320, 22909, 10, 32, 10, 19990, 30028, 12290] =
     [(preface_title,
       [60, 112, 62, 12288, 12288, 20320, 22909, 60, 47, 112, 62, 10,
        60, 112, 62, 12288, 12288, 19990, 30028, 12290, 60, 47, 112, 62])] \<and>
   txt_to_epub_chapters default_chapter_pattern ''line'' True [32, 10, 10] = []"
proof -
  have a: "split_nl [20320, 22909, 10, 32, 10, 19990, 30028, 12290] =
      [[20320, 22909], [32], [19990, 30028, 12290]]" by simp
  have b: "split_nl [32, 10, 10] = [[32], [], []]" by simp
  show ?thesis
    using no_heading_single_chapter[of "''line''" "[20320, 22909, 10, 32, 10, 19990, 30028, 12290]"
        default_chapter_pattern True]
      no_heading_single_chapter[of "''line''" "[32, 10, 10]" default_chapter_pattern True]
    unfolding a b
    by (simp add: segmenter_defs classifier_defs buffer_line_def default_chapter_pattern_def)
qed

text \<open>
  C10. With a mode other than \<^verbatim>\<open>line\<close>, \<^verbatim>\<open>blank\<close> and \<^verbatim>\<open>smart\<close> the segmenter returns
  no paragraph for any buffer, so no chapter is produced.
\<close>

theorem unknown_mode_no_chapters:
  assumes "mode \<noteq> ''line''" "mode \<noteq> ''blank''" "mode \<noteq> ''smart''"
  shows "process_paragraphs text_lines mode add_indent = [] \<and>
         chapters_of_lines pat mode add_indent lines = [] \<and>
         txt_to_epub_chapters pat mode add_indent content = []"
proof -
  have pp: "\<And>buf. process_paragraphs buf mode add_indent = []"
    using assms by (rule process_paragraphs_other)
  have "\<And>ls. chapters_of_lines pat mode add_indent ls = []"
    by (simp add: chapters_of_lines_sections spec_emitted_def pp)
  then show ?thesis by (simp add: pp txt_to_epub_chapters_def)
qed

theorem unknown_mode_no_chapters_witness:
  "process_paragraphs [[20320, 22909, 12290]] ''auto'' True = [] \<and>
   txt_to_epub_chapters default_chapter_pattern ''auto'' True
     [31532, 19968, 31456, 10, 20320, 22909, 12290] = []"
  using unknown_mode_no_chapters[of "''auto''" "[[20320, 22909, 12290]]" True
      default_chapter_pattern "[]" "[31532, 19968, 31456, 10, 20320, 22909, 12290]"]
  by simp


end
